theory Spec2Isabelle
  imports Complex_Main "HOL-Library.Multiset"
begin

section \<open>Python values used by \<^verbatim>\<open>app.py\<close>\<close>

text \<open>
  The converter (\<^verbatim>\<open>src/app.py\<close>) has two functions with logic of their own,
  \<^verbatim>\<open>extract_text_from_docx\<close> and \<^verbatim>\<open>create_jsonl_data\<close>, and an upload section
  that calls them. Exceptions are values of type \<open>error\<close>: every function that can
  raise returns a sum, \<open>Inl\<close> the exception.

  \<^item> \<open>ZeroDivisionError\<close>, \<open>OverflowError\<close>: raised by \<^verbatim>\<open>100/test_split\<close> and by
    \<^verbatim>\<open>i % period\<close>;
  \<^item> \<open>MalformedDocument\<close>: whatever \<^verbatim>\<open>docx.Document\<close> raises on bytes that are not a
    readable package (\<^verbatim>\<open>zipfile.BadZipFile\<close>, \<^verbatim>\<open>KeyError\<close>, ...);
  \<^item> \<open>PublishFailure\<close>: whatever \<^verbatim>\<open>push_to_hub\<close> raises.
\<close>

datatype error = ZeroDivisionError | OverflowError | MalformedDocument | PublishFailure

subsection \<open>Strings\<close>

text \<open>
  A Python \<^verbatim>\<open>str\<close> is a sequence of Unicode code points, here a list of naturals;
  \<open>str\<close> embeds an ASCII literal of the source.
\<close>

type_synonym pystr = "nat list"

definition str :: "string \<Rightarrow> pystr" where
  "str s = map of_char s"

text \<open>
  \<^verbatim>\<open>str.isspace\<close> for one code point: the characters \<^verbatim>\<open>str.strip()\<close> removes. These are
  the 29 code points for which CPython's \<^verbatim>\<open>Py_UNICODE_ISSPACE\<close> holds.
\<close>

definition isspace :: "nat \<Rightarrow> bool" where
  "isspace c \<longleftrightarrow>
     (9 \<le> c \<and> c \<le> 13) \<or> (28 \<le> c \<and> c \<le> 32) \<or> c = 133 \<or> c = 160 \<or> c = 5760 \<or>
     (8192 \<le> c \<and> c \<le> 8202) \<or> c = 8232 \<or> c = 8233 \<or> c = 8239 \<or> c = 8287 \<or> c = 12288"

definition strip :: "pystr \<Rightarrow> pystr" where
  "strip s = rev (dropWhile isspace (rev (dropWhile isspace s)))"

text \<open>\<^verbatim>\<open>sep.join(parts)\<close>.\<close>

fun join :: "pystr \<Rightarrow> pystr list \<Rightarrow> pystr" where
  "join sep [] = []"
| "join sep [x] = x"
| "join sep (x # y # ys) = x @ sep @ join sep (y # ys)"

subsection \<open>Floats\<close>

text \<open>
  \<^verbatim>\<open>100/test_split\<close> is Python's true division of two ints and \<^verbatim>\<open>i % period\<close> is the
  float remainder, so the split rule runs on IEEE-754 doubles. A finite double is
  modelled exactly, as the integer pair \<open>Double m e\<close> standing for \<open>m * 2 ^ e\<close>;
  \<open>float_value\<close> is the rational number it denotes. Infinities and NaN never arise
  here: the operations below raise where Python raises, and the sign of a zero does not
  matter to the one comparison \<^verbatim>\<open>== 0\<close> made on the result.
\<close>

datatype pyfloat = Double (mantissa: int) (exponent: int)

definition float_value :: "pyfloat \<Rightarrow> rat" where
  "float_value x =
     (if 0 \<le> exponent x then of_int (mantissa x * 2 ^ nat (exponent x))
      else of_int (mantissa x) / of_int (2 ^ nat (- exponent x)))"

text \<open>\<^verbatim>\<open>int.bit_length()\<close> of a non-negative int.\<close>

function bit_length :: "int \<Rightarrow> nat" where
  "bit_length n = (if n \<le> 0 then 0 else Suc (bit_length (n div 2)))"
  by pat_completeness auto
termination
  by (relation "measure nat") auto

declare bit_length.simps [simp del]

text \<open>The quotient \<open>n / d\<close> (\<open>0 \<le> n\<close>, \<open>0 < d\<close>) rounded to the nearest integer, ties to even.\<close>

definition round_half_even :: "int \<Rightarrow> int \<Rightarrow> int" where
  "round_half_even n d =
     (let q = n div d; r = n mod d
      in if 2 * r < d then q
         else if d < 2 * r then q + 1
         else if even q then q else q + 1)"

text \<open>
  The binary exponent of \<open>n / d\<close> (\<open>0 < n\<close>, \<open>0 < d\<close>): the \<open>s\<close> with
  \<open>2 ^ s \<le> n / d < 2 ^ (s + 1)\<close>, found from the bit lengths as CPython's
  \<^verbatim>\<open>long_true_divide\<close> does.
\<close>

definition binade :: "int \<Rightarrow> int \<Rightarrow> int" where
  "binade n d =
     (let s = int (bit_length n) - int (bit_length d)
      in if (if 0 \<le> s then d * 2 ^ nat s \<le> n else d \<le> n * 2 ^ nat (- s)) then s else s - 1)"

text \<open>
  Round-to-nearest-even of \<open>n / d\<close> to a double: 53 significant bits, and no bit below
  \<open>2 ^ -1074\<close> (gradual underflow).
\<close>

definition round_to_double :: "int \<Rightarrow> int \<Rightarrow> pyfloat" where
  "round_to_double n d =
     (if n = 0 then Double 0 0
      else let e = max (binade n d - 52) (- 1074)
           in if 0 \<le> e then Double (round_half_even n (d * 2 ^ nat e)) e
              else Double (round_half_even (n * 2 ^ nat (- e)) d) e)"

text \<open>A rounded magnitude of \<open>2 ^ 1024\<close> or more is beyond the largest double.\<close>

definition overflows :: "pyfloat \<Rightarrow> bool" where
  "overflows x \<longleftrightarrow> 0 \<le> exponent x \<and> 2 ^ 1024 \<le> \<bar>mantissa x\<bar> * 2 ^ nat (exponent x)"

definition round_checked :: "int \<Rightarrow> int \<Rightarrow> error + pyfloat" where
  "round_checked n d =
     (let r = round_to_double \<bar>n\<bar> \<bar>d\<bar>
      in if overflows r then Inl OverflowError
         else Inr (if (n < 0) = (d < 0) then r else Double (- mantissa r) (exponent r)))"

text \<open>\<^verbatim>\<open>a / b\<close> on ints: correctly rounded, \<^verbatim>\<open>ZeroDivisionError\<close> for \<^verbatim>\<open>b == 0\<close>.\<close>

definition int_true_divide :: "int \<Rightarrow> int \<Rightarrow> error + pyfloat" where
  "int_true_divide a b = (if b = 0 then Inl ZeroDivisionError else round_checked a b)"

text \<open>The conversion of the int operand of \<^verbatim>\<open>int % float\<close>.\<close>

definition float_of_int :: "int \<Rightarrow> error + pyfloat" where
  "float_of_int i = round_checked i 1"

text \<open>C's \<^verbatim>\<open>fmod\<close>: exact, with the sign of the dividend.\<close>

definition fmod :: "pyfloat \<Rightarrow> pyfloat \<Rightarrow> pyfloat" where
  "fmod x y =
     (let e = min (exponent x) (exponent y);
          a = mantissa x * 2 ^ nat (exponent x - e);
          b = mantissa y * 2 ^ nat (exponent y - e);
          r = \<bar>a\<bar> mod \<bar>b\<bar>
      in Double (if a < 0 then - r else r) e)"

definition float_add :: "pyfloat \<Rightarrow> pyfloat \<Rightarrow> error + pyfloat" where
  "float_add x y =
     (let e = min (exponent x) (exponent y);
          s = mantissa x * 2 ^ nat (exponent x - e) + mantissa y * 2 ^ nat (exponent y - e)
      in if 0 \<le> e then round_checked (s * 2 ^ nat e) 1 else round_checked s (2 ^ nat (- e)))"

text \<open>
  \<^verbatim>\<open>vx % wx\<close> on floats (CPython's \<^verbatim>\<open>float_rem\<close>): \<^verbatim>\<open>fmod\<close>, moved by \<^verbatim>\<open>wx\<close> when its
  sign differs from the divisor's; \<^verbatim>\<open>ZeroDivisionError\<close> for a zero divisor.
\<close>

definition float_rem :: "pyfloat \<Rightarrow> pyfloat \<Rightarrow> error + pyfloat" where
  "float_rem vx wx =
     (if mantissa wx = 0 then Inl ZeroDivisionError
      else let m = fmod vx wx
           in if mantissa m \<noteq> 0 \<and> ((mantissa wx < 0) \<noteq> (mantissa m < 0))
              then float_add m wx
              else Inr m)"

section \<open>The configuration\<close>

text \<open>
  \<^verbatim>\<open>test_split = st.slider("Test Split %", 10, 50, 20)\<close>: the slider hands back an int
  between its bounds, so these are the values \<^verbatim>\<open>test_split\<close> can have.
\<close>

definition slider :: "int \<Rightarrow> int \<Rightarrow> int set" where
  "slider min_value max_value = {min_value..max_value}"

definition test_split_values :: "int set" where
  "test_split_values = slider 10 50"

section \<open>The text extractor\<close>

text \<open>
  An uploaded file is a \<^verbatim>\<open>BytesIO\<close> with a name and a MIME type: a buffer and a read
  position. \<^verbatim>\<open>read()\<close> returns the bytes from the position to the end and leaves the
  position at the end.
\<close>

type_synonym bytes = "nat list"

record uploaded_file =
  name :: pystr
  type :: pystr
  data :: bytes
  pos :: nat

definition read :: "uploaded_file \<Rightarrow> bytes \<times> uploaded_file" where
  "read f = (drop (pos f) (data f), f\<lparr>pos := max (pos f) (length (data f))\<rparr>)"

text \<open>
  \<^verbatim>\<open>Document(io.BytesIO(bs))\<close> of python-docx, as far as the extractor uses it: the
  texts of the paragraphs, in document order. The library is not part of the
  repository, so its parser is a parameter \<open>parse_docx\<close> (\<open>None\<close> where it raises). One
  fact about it is fixed here: the empty byte string is not a zip archive, and
  \<^verbatim>\<open>Document\<close> raises on it.
\<close>

type_synonym parser = "bytes \<Rightarrow> pystr list option"

definition Document :: "parser \<Rightarrow> bytes \<Rightarrow> error + pystr list" where
  "Document parse_docx bs =
     (if bs = [] then Inl MalformedDocument
      else case parse_docx bs of None \<Rightarrow> Inl MalformedDocument | Some paragraphs \<Rightarrow> Inr paragraphs)"

text \<open>
  \<^verbatim>\<open>
  def extract_text_from_docx(docx_file):
      doc = Document(io.BytesIO(docx_file.read()))
      return "\n".join([para.text for para in doc.paragraphs if para.text.strip()])
  \<close>
  The result is paired with the file object as the call leaves it.
\<close>

definition extract_text_from_docx ::
    "parser \<Rightarrow> uploaded_file \<Rightarrow> (error + pystr) \<times> uploaded_file" where
  "extract_text_from_docx parse_docx docx_file =
     (case read docx_file of
        (bs, docx_file') \<Rightarrow>
          (case Document parse_docx bs of
             Inl e \<Rightarrow> (Inl e, docx_file')
           | Inr paragraphs \<Rightarrow>
               (Inr (join [10] [text \<leftarrow> paragraphs. strip text \<noteq> []]), docx_file')))"

section \<open>The splitter\<close>

record document =
  section_title :: pystr
  content :: pystr

datatype effect =
    St_write "pystr list"
  | St_warning pystr
  | Push_to_hub pystr "document list" "document list"
  | St_success pystr
  | St_error pystr

definition docx_mime :: pystr where
  "docx_mime = str ''application/vnd.openxmlformats-officedocument.wordprocessingml.document''"

text \<open>The test of line 240, \<^verbatim>\<open>i % (100/test_split) == 0\<close>, in Python's evaluation order.\<close>

definition split_test :: "nat \<Rightarrow> int \<Rightarrow> error + bool" where
  "split_test i test_split =
     (case int_true_divide 100 test_split of
        Inl e \<Rightarrow> Inl e
      | Inr period \<Rightarrow>
          (case float_of_int (int i) of
             Inl e \<Rightarrow> Inl e
           | Inr x \<Rightarrow>
               (case float_rem x period of
                  Inl e \<Rightarrow> Inl e
                | Inr r \<Rightarrow> Inr (mantissa r = 0))))"

definition make_document :: "pystr \<Rightarrow> document" where
  "make_document text = \<lparr>section_title = str ''RAG Post'', content = text\<rparr>"

definition unsupported_warning :: "uploaded_file \<Rightarrow> effect" where
  "unsupported_warning uploaded_file =
     St_warning (str ''File type '' @ type uploaded_file @ str '' not supported!'')"

text \<open>
  \<^verbatim>\<open>
  def create_jsonl_data(file_objects):
      train_data, test_data = [], []
      for i, uploaded_file in enumerate(file_objects):
          if uploaded_file.type == 'application/vnd...wordprocessingml.document':
              content = extract_text_from_docx(uploaded_file)
              document = {"section_title": "RAG Post", "content": content}
              if i % (100/test_split) == 0:  # Use slider value for split
                  test_data.append(document)
              else:
                  train_data.append(document)
          else:
              st.warning(f"File type {uploaded_file.type} not supported!")
      return train_data, test_data
  \<close>
  The loop runs over \<open>enumerate 0 file_objects\<close>; its state is the two lists and the
  warnings shown so far. An exception ends it: the result is then the warnings shown
  before it and the exception. \<^verbatim>\<open>test_split\<close>, a global of the script, is a parameter.
  Each file object is read at most once in a call, so the positions the reads leave
  behind are not threaded through the loop.
\<close>

fun create_jsonl_loop ::
    "parser \<Rightarrow> int \<Rightarrow> (nat \<times> uploaded_file) list \<Rightarrow> document list \<Rightarrow> document list \<Rightarrow>
     effect list \<Rightarrow> effect list \<times> (error + document list \<times> document list)" where
  "create_jsonl_loop parse_docx test_split [] train_data test_data shown =
     (shown, Inr (train_data, test_data))"
| "create_jsonl_loop parse_docx test_split ((i, uploaded_file) # rest) train_data test_data shown =
     (if type uploaded_file = docx_mime then
        (case fst (extract_text_from_docx parse_docx uploaded_file) of
           Inl e \<Rightarrow> (shown, Inl e)
         | Inr text \<Rightarrow>
             (case split_test i test_split of
                Inl e \<Rightarrow> (shown, Inl e)
              | Inr b \<Rightarrow>
                  if b then
                    create_jsonl_loop parse_docx test_split rest
                      train_data (test_data @ [make_document text]) shown
                  else
                    create_jsonl_loop parse_docx test_split rest
                      (train_data @ [make_document text]) test_data shown))
      else
        create_jsonl_loop parse_docx test_split rest train_data test_data
          (shown @ [unsupported_warning uploaded_file]))"

definition create_jsonl_data ::
    "parser \<Rightarrow> int \<Rightarrow> uploaded_file list \<Rightarrow> effect list \<times> (error + document list \<times> document list)" where
  "create_jsonl_data parse_docx test_split file_objects =
     create_jsonl_loop parse_docx test_split (enumerate 0 file_objects) [] [] []"

section \<open>The upload section\<close>

text \<open>
  Lines 249 to 263. \<open>uploaded_files\<close> is what the file uploader returned and \<open>button\<close>
  whether the button was pressed in this run; \<open>push_to_hub\<close> is the publishing
  collaborator, true where the upload succeeds and false where it raises. The result
  is what the run showed and did, in order, and the exception that ended it, if any.
\<close>

definition upload_section ::
    "parser \<Rightarrow> (pystr \<Rightarrow> document list \<Rightarrow> document list \<Rightarrow> bool) \<Rightarrow> int \<Rightarrow> pystr \<Rightarrow>
     uploaded_file list \<Rightarrow> bool \<Rightarrow> effect list \<times> error option" where
  "upload_section parse_docx push_to_hub test_split repo_name uploaded_files button =
     (if uploaded_files \<noteq> [] then
        (if button then
           (case create_jsonl_data parse_docx test_split uploaded_files of
              (shown, Inl e) \<Rightarrow> (St_write (map name uploaded_files) # shown, Some e)
            | (shown, Inr (train_data, test_data)) \<Rightarrow>
                if train_data \<noteq> [] \<or> test_data \<noteq> [] then
                  (if push_to_hub repo_name train_data test_data then
                     (St_write (map name uploaded_files) # shown @
                        [Push_to_hub repo_name train_data test_data,
                         St_success (str ''Dataset uploaded to Hugging Face successfully with train and test splits!'')],
                      None)
                   else
                     (St_write (map name uploaded_files) # shown @
                        [Push_to_hub repo_name train_data test_data],
                      Some PublishFailure))
                else
                  (St_write (map name uploaded_files) # shown @
                     [St_error (str ''No valid files to process.'')],
                   None))
         else ([St_write (map name uploaded_files)], None))
      else ([], None))"

section \<open>Notions used to state the properties\<close>

definition accepted :: "uploaded_file \<Rightarrow> bool" where
  "accepted f \<longleftrightarrow> type f = docx_mime"

text \<open>The record built from a file, where its extraction returns.\<close>

definition document_of :: "parser \<Rightarrow> uploaded_file \<Rightarrow> document option" where
  "document_of parse_docx f =
     (case fst (extract_text_from_docx parse_docx f) of
        Inl e \<Rightarrow> None
      | Inr text \<Rightarrow> Some (make_document text))"

text \<open>The indexed items that the loop appends to the test list and to the train list.\<close>

definition test_items :: "int \<Rightarrow> (nat \<times> uploaded_file) list \<Rightarrow> (nat \<times> uploaded_file) list" where
  "test_items test_split ps = [(i, f) \<leftarrow> ps. accepted f \<and> split_test i test_split = Inr True]"

definition train_items :: "int \<Rightarrow> (nat \<times> uploaded_file) list \<Rightarrow> (nat \<times> uploaded_file) list" where
  "train_items test_split ps = [(i, f) \<leftarrow> ps. accepted f \<and> split_test i test_split = Inr False]"

text \<open>The odd factor of a positive int: what is left when every factor 2 is taken out.\<close>

function odd_part :: "int \<Rightarrow> int" where
  "odd_part n = (if n \<le> 0 \<or> odd n then n else odd_part (n div 2))"
  by pat_completeness auto
termination
  by (relation "measure nat") auto

declare odd_part.simps [simp del]

text \<open>
  The slider values for which \<open>100 / test_split\<close> is a dyadic rational, so that the
  double \<^verbatim>\<open>100/test_split\<close> is that quotient itself.
\<close>

definition dyadic_splits :: "int set" where
  "dyadic_splits = {10, 16, 20, 25, 32, 40, 50}"

text \<open>
  The extractor's result in the words of its contract: the kept paragraph texts, each
  after the first preceded by one newline.
\<close>

fun newline_joined :: "pystr list \<Rightarrow> pystr" where
  "newline_joined [] = []"
| "newline_joined (t # ts) = t @ concat (map (\<lambda>u. 10 # u) ts)"

subsection \<open>Example inputs\<close>

text \<open>
  A small stand-in for the package parser, for the examples: a package is the two bytes
  \<open>PK\<close> followed by the paragraph texts, one byte per character, separated by zero
  bytes. Anything else does not parse.
\<close>

fun split_paragraphs :: "bytes \<Rightarrow> pystr list" where
  "split_paragraphs [] = [[]]"
| "split_paragraphs (c # cs) =
     (if c = 0 then [] # split_paragraphs cs
      else case split_paragraphs cs of [] \<Rightarrow> [[c]] | p # ps \<Rightarrow> (c # p) # ps)"

definition toy_parser :: parser where
  "toy_parser bs = (if take 2 bs = [80, 75] then Some (split_paragraphs (drop 2 bs)) else None)"

definition docx_upload :: "bytes \<Rightarrow> uploaded_file" where
  "docx_upload bs = \<lparr>name = str ''a.docx'', type = docx_mime, data = bs, pos = 0\<rparr>"

definition pdf_upload :: uploaded_file where
  "pdf_upload = \<lparr>name = str ''b.pdf'', type = str ''application/pdf'', data = [37, 80, 68, 70], pos = 0\<rparr>"

text \<open>The \<open>k\<close>-th example document: one paragraph, the letter d and the digit \<open>k\<close>.\<close>

definition numbered_upload :: "nat \<Rightarrow> uploaded_file" where
  "numbered_upload k = docx_upload [80, 75, 100, 48 + k]"

definition numbered_document :: "nat \<Rightarrow> document" where
  "numbered_document k = make_document [100, 48 + k]"

lemmas float_defs = split_test_def int_true_divide_def round_checked_def round_to_double_def
  binade_def bit_length.simps round_half_even_def overflows_def float_of_int_def float_rem_def
  fmod_def float_add_def Let_def

section \<open>The loop of \<^verbatim>\<open>create_jsonl_data\<close>\<close>

text \<open>
  What a run of the loop that returns has appended to its three lists, that it returns
  exactly when every accepted item extracts and classifies, and where it stops
  otherwise.
\<close>

lemma loop_success:
  "create_jsonl_loop parse_docx P ps tr te sh = (sh', Inr (tr', te')) \<Longrightarrow>
     map Some tr' = map Some tr @ map (document_of parse_docx \<circ> snd) (train_items P ps) \<and>
     map Some te' = map Some te @ map (document_of parse_docx \<circ> snd) (test_items P ps) \<and>
     sh' = sh @ map (unsupported_warning \<circ> snd) [(i, f) \<leftarrow> ps. \<not> accepted f]"
proof (induction ps arbitrary: tr te sh)
  case Nil
  then show ?case by (simp add: train_items_def test_items_def)
next
  case (Cons p ps)
  obtain i f where p: "p = (i, f)" by (cases p)
  show ?case
  proof (cases "accepted f")
    case False
    with Cons.prems p
    have "create_jsonl_loop parse_docx P ps tr te (sh @ [unsupported_warning f]) = (sh', Inr (tr', te'))"
      by (simp add: accepted_def)
    from Cons.IH [OF this] False p show ?thesis
      by (simp add: train_items_def test_items_def)
  next
    case True
    with Cons.prems p obtain c b where
      ex: "fst (extract_text_from_docx parse_docx f) = Inr c" and
      sp: "split_test i P = Inr b"
      by (auto simp: accepted_def split: sum.splits)
    have doc: "document_of parse_docx f = Some (make_document c)"
      using ex by (simp add: document_of_def)
    show ?thesis
    proof (cases b)
      case True
      with Cons.prems p \<open>accepted f\<close> ex sp
      have "create_jsonl_loop parse_docx P ps tr (te @ [make_document c]) sh = (sh', Inr (tr', te'))"
        by (simp add: accepted_def)
      from Cons.IH [OF this] True p \<open>accepted f\<close> sp doc show ?thesis
        by (simp add: train_items_def test_items_def)
    next
      case False
      with Cons.prems p \<open>accepted f\<close> ex sp
      have "create_jsonl_loop parse_docx P ps (tr @ [make_document c]) te sh = (sh', Inr (tr', te'))"
        by (simp add: accepted_def)
      from Cons.IH [OF this] False p \<open>accepted f\<close> sp doc show ?thesis
        by (simp add: train_items_def test_items_def)
    qed
  qed
qed


lemma loop_success_defined:
  "create_jsonl_loop parse_docx P ps tr te sh = (sh', Inr (tr', te')) \<Longrightarrow>
     (i, f) \<in> set ps \<Longrightarrow> accepted f \<Longrightarrow>
     document_of parse_docx f \<noteq> None \<and> (\<exists>b. split_test i P = Inr b)"
proof (induction ps arbitrary: tr te sh)
  case Nil
  then show ?case by simp
next
  case (Cons p ps)
  obtain j g where p: "p = (j, g)" by (cases p)
  show ?case
  proof (cases "accepted g")
    case False
    with Cons.prems p
    have run: "create_jsonl_loop parse_docx P ps tr te (sh @ [unsupported_warning g]) = (sh', Inr (tr', te'))"
      and mem: "(i, f) \<in> set ps"
      by (auto simp: accepted_def)
    from Cons.IH [OF run mem \<open>accepted f\<close>] show ?thesis .
  next
    case True
    with Cons.prems p obtain c b where
      ex: "fst (extract_text_from_docx parse_docx g) = Inr c" and
      sp: "split_test j P = Inr b"
      by (auto simp: accepted_def split: sum.splits)
    from Cons.prems p True ex sp obtain tr0 te0 where
      run: "create_jsonl_loop parse_docx P ps tr0 te0 sh = (sh', Inr (tr', te'))"
      by (cases b) (auto simp: accepted_def)
    show ?thesis
    proof (cases "(i, f) = (j, g)")
      case True
      with ex sp show ?thesis by (simp add: document_of_def)
    next
      case False
      with Cons.prems p have "(i, f) \<in> set ps" by auto
      from Cons.IH [OF run this \<open>accepted f\<close>] show ?thesis .
    qed
  qed
qed

lemma loop_total:
  "(\<And>i f. (i, f) \<in> set ps \<Longrightarrow> accepted f \<Longrightarrow>
       document_of parse_docx f \<noteq> None \<and> (\<exists>b. split_test i P = Inr b)) \<Longrightarrow>
   \<exists>sh' tr' te'. create_jsonl_loop parse_docx P ps tr te sh = (sh', Inr (tr', te'))"
proof (induction ps arbitrary: tr te sh)
  case Nil
  then show ?case by simp
next
  case (Cons p ps)
  obtain j g where p: "p = (j, g)" by (cases p)
  have rest: "\<And>i f. (i, f) \<in> set ps \<Longrightarrow> accepted f \<Longrightarrow>
       document_of parse_docx f \<noteq> None \<and> (\<exists>b. split_test i P = Inr b)"
    by (rule Cons.prems) simp_all
  show ?case
  proof (cases "accepted g")
    case False
    with Cons.IH [OF rest, of tr te "sh @ [unsupported_warning g]"] p show ?thesis
      by (simp add: accepted_def)
  next
    case True
    with Cons.prems [of j g] p obtain c b where
      ex: "fst (extract_text_from_docx parse_docx g) = Inr c" and
      sp: "split_test j P = Inr b"
      by (auto simp: document_of_def split: sum.splits)
    show ?thesis
    proof (cases b)
      case True
      with Cons.IH [OF rest, of tr "te @ [make_document c]" sh] p \<open>accepted g\<close> ex sp show ?thesis
        by (simp add: accepted_def)
    next
      case False
      with Cons.IH [OF rest, of "tr @ [make_document c]" te sh] p \<open>accepted g\<close> ex sp show ?thesis
        by (simp add: accepted_def)
    qed
  qed
qed

lemma loop_abort:
  "(\<And>i f. (i, f) \<in> set pre \<Longrightarrow> accepted f \<Longrightarrow>
       document_of parse_docx f \<noteq> None \<and> (\<exists>b. split_test i P = Inr b)) \<Longrightarrow>
   accepted g \<Longrightarrow> document_of parse_docx g = None \<Longrightarrow>
   create_jsonl_loop parse_docx P (pre @ (j, g) # post) tr te sh =
     (sh @ map (unsupported_warning \<circ> snd) [(i, f) \<leftarrow> pre. \<not> accepted f], Inl MalformedDocument)"
proof (induction pre arbitrary: tr te sh)
  case Nil
  then show ?case
    by (auto simp: accepted_def document_of_def extract_text_from_docx_def Document_def
        split: sum.splits prod.splits option.splits if_splits)
next
  case (Cons p pre)
  obtain k h where p: "p = (k, h)" by (cases p)
  have rest: "\<And>i f. (i, f) \<in> set pre \<Longrightarrow> accepted f \<Longrightarrow>
       document_of parse_docx f \<noteq> None \<and> (\<exists>b. split_test i P = Inr b)"
    by (rule Cons.prems(1)) simp_all
  note IH = Cons.IH [OF rest Cons.prems(2,3)]
  show ?case
  proof (cases "accepted h")
    case False
    with IH [of tr te "sh @ [unsupported_warning h]"] p show ?thesis
      by (simp add: accepted_def)
  next
    case True
    with Cons.prems(1) [of k h] p obtain c b where
      ex: "fst (extract_text_from_docx parse_docx h) = Inr c" and
      sp: "split_test k P = Inr b"
      by (auto simp: document_of_def split: sum.splits)
    show ?thesis
    proof (cases b)
      case True
      with IH [of tr "te @ [make_document c]" sh] p \<open>accepted h\<close> ex sp show ?thesis
        by (simp add: accepted_def)
    next
      case False
      with IH [of "tr @ [make_document c]" te sh] p \<open>accepted h\<close> ex sp show ?thesis
        by (simp add: accepted_def)
    qed
  qed
qed

section \<open>Facts about the float operations\<close>

text \<open>An int below \<open>2 ^ 53\<close> converts to a double without rounding.\<close>

lemma bit_length_le: "n < 2 ^ k \<Longrightarrow> bit_length n \<le> k"
proof (induction k arbitrary: n)
  case 0
  then show ?case by (simp add: bit_length.simps)
next
  case (Suc k)
  show ?case
  proof (cases "n \<le> 0")
    case True
    then show ?thesis by (simp add: bit_length.simps)
  next
    case False
    from Suc.prems have "n div 2 < 2 ^ k" by simp
    from Suc.IH [OF this] False show ?thesis
      by (subst bit_length.simps) simp
  qed
qed

lemma round_half_even_1: "round_half_even n 1 = n"
  by (simp add: round_half_even_def)

lemma binade_one_le: "0 < n \<Longrightarrow> binade n 1 \<le> int (bit_length n) - 1"
  by (simp add: binade_def Let_def bit_length.simps [of 1] bit_length.simps [of 0])

lemma binade_one_ge: "0 < n \<Longrightarrow> - 1 \<le> binade n 1"
  by (simp add: binade_def Let_def bit_length.simps [of 1] bit_length.simps [of 0] bit_length.simps [of n])

lemma float_of_int_exact:
  assumes "0 \<le> i" "i < 2 ^ 53"
  shows "\<exists>x. float_of_int i = Inr x \<and> float_value x = of_int i \<and> 0 \<le> mantissa x"
proof (cases "i = 0")
  case True
  then show ?thesis
    by (simp add: float_of_int_def round_checked_def round_to_double_def overflows_def float_value_def)
next
  case False
  with assms have pos: "0 < i" by simp
  define e where "e = max (binade i 1 - 52) (- 1074)"
  have "bit_length i \<le> 53" using assms(2) by (rule bit_length_le)
  with binade_one_le [OF pos] have "binade i 1 \<le> 52" by simp
  with binade_one_ge [OF pos] have e: "e \<le> 0" "e = binade i 1 - 52" by (simp_all add: e_def)
  have r: "round_to_double i 1 = Double (i * 2 ^ nat (- e)) e"
  proof (cases "e = 0")
    case True
    with pos show ?thesis
      by (simp add: round_to_double_def Let_def e_def [symmetric] round_half_even_1)
  next
    case False
    with e pos show ?thesis
      by (simp add: round_to_double_def Let_def e_def [symmetric] round_half_even_1)
  qed
  have nov: "\<not> overflows (Double (i * 2 ^ nat (- e)) e)"
  proof (cases "e = 0")
    case True
    have "(2::int) ^ 53 < 2 ^ 1024" by simp
    with assms True show ?thesis by (simp add: overflows_def)
  next
    case False
    with e show ?thesis by (simp add: overflows_def)
  qed
  have "float_of_int i = Inr (Double (i * 2 ^ nat (- e)) e)"
    using pos r nov by (simp add: float_of_int_def round_checked_def Let_def)
  moreover have "float_value (Double (i * 2 ^ nat (- e)) e) = of_int i"
    using e by (simp add: float_value_def)
  moreover have "0 \<le> mantissa (Double (i * 2 ^ nat (- e)) e)"
    using pos by simp
  ultimately show ?thesis by blast
qed

text \<open>
  For a non-negative dividend and a positive divisor the remainder is \<open>fmod\<close>, and it is
  zero exactly when the dividend is an integer multiple of the divisor.
\<close>

lemma float_value_powi: "float_value x = of_int (mantissa x) * 2 powi exponent x"
  by (simp add: float_value_def power_int_def field_simps)

lemma aligned_value:
  assumes "e \<le> ex"
  shows "(of_int (m * 2 ^ nat (ex - e)) :: rat) * 2 powi e = of_int m * 2 powi ex"
proof -
  have "(2::rat) powi ex = 2 powi ((ex - e) + e)" by simp
  also have "\<dots> = 2 powi (ex - e) * 2 powi e"
    by (rule power_int_add) simp
  also have "2 powi (ex - e) = (2::rat) ^ nat (ex - e)"
    using assms by (simp add: power_int_def)
  finally show ?thesis by simp
qed

lemma fmod_zero_iff:
  assumes "0 \<le> mantissa x" "0 < mantissa y"
  shows "mantissa (fmod x y) = 0 \<longleftrightarrow> (\<exists>k::int. float_value x = of_int k * float_value y)"
proof -
  define e where "e = min (exponent x) (exponent y)"
  define a where "a = mantissa x * 2 ^ nat (exponent x - e)"
  define b where "b = mantissa y * 2 ^ nat (exponent y - e)"
  have a: "0 \<le> a" and b: "0 < b" using assms by (simp_all add: a_def b_def)
  have vx: "float_value x = of_int a * 2 powi e"
    unfolding a_def float_value_powi by (rule aligned_value [symmetric]) (simp add: e_def)
  have vy: "float_value y = of_int b * 2 powi e"
    unfolding b_def float_value_powi by (rule aligned_value [symmetric]) (simp add: e_def)
  have pos: "(2::rat) powi e \<noteq> 0" by simp
  have "mantissa (fmod x y) = a mod b"
    using a b by (simp add: fmod_def Let_def e_def [symmetric] a_def [symmetric] b_def [symmetric])
  then have "mantissa (fmod x y) = 0 \<longleftrightarrow> b dvd a" by (simp add: dvd_eq_mod_eq_0)
  also have "\<dots> \<longleftrightarrow> (\<exists>k. a = k * b)" by (auto simp: dvd_def mult.commute)
  also have "\<dots> \<longleftrightarrow> (\<exists>k::int. (of_int a :: rat) = of_int k * of_int b)"
    by (metis of_int_eq_iff of_int_mult)
  also have "\<dots> \<longleftrightarrow> (\<exists>k::int. float_value x = of_int k * float_value y)"
    using pos by (simp add: vx vy)
  finally show ?thesis .
qed

lemma fmod_nonneg: "0 \<le> mantissa x \<Longrightarrow> 0 < mantissa y \<Longrightarrow> 0 \<le> mantissa (fmod x y)"
  by (simp add: fmod_def Let_def mult_less_0_iff)

lemma float_rem_positive:
  "0 \<le> mantissa x \<Longrightarrow> 0 < mantissa y \<Longrightarrow> float_rem x y = Inr (fmod x y)"
  using fmod_nonneg [of x y] by (simp add: float_rem_def Let_def)

lemma split_test_multiple:
  assumes "int_true_divide 100 P = Inr y" "0 < mantissa y" "i < 2 ^ 53"
  shows "split_test i P = Inr (\<exists>k::int. of_nat i = of_int k * float_value y)"
proof -
  from assms(3) have "int i < 2 ^ 53"
    by (metis of_nat_less_iff of_nat_numeral of_nat_power)
  with float_of_int_exact [of "int i"] obtain x where
    x: "float_of_int (int i) = Inr x" "float_value x = of_int (int i)" "0 \<le> mantissa x"
    by auto
  from x(3) assms(2) have "float_rem x y = Inr (fmod x y)" by (rule float_rem_positive)
  with assms(1) x(1) have "split_test i P = Inr (mantissa (fmod x y) = 0)"
    by (simp add: split_test_def)
  with fmod_zero_iff [OF x(3) assms(2)] x(2) show ?thesis by simp
qed

section \<open>The period for the values of the slider\<close>

lemma odd_part_dvd: "odd_part n dvd n"
proof (induction n rule: odd_part.induct)
  case (1 n)
  show ?case
  proof (cases "n \<le> 0 \<or> odd n")
    case True
    then show ?thesis by (subst odd_part.simps) simp
  next
    case False
    with 1 have "odd_part (n div 2) dvd n div 2" by simp
    moreover from False have "n = 2 * (n div 2)" by simp
    then have "n div 2 dvd n" by (metis dvd_triv_right)
    ultimately have "odd_part (n div 2) dvd n" by (rule dvd_trans)
    with False show ?thesis by (subst odd_part.simps) simp
  qed
qed

lemma odd_part_odd: "0 < n \<Longrightarrow> odd (odd_part n)"
proof (induction n rule: odd_part.induct)
  case (1 n)
  show ?case
  proof (cases "odd n")
    case True
    then show ?thesis by (subst odd_part.simps) simp
  next
    case False
    with "1.prems" have "0 < n div 2" by presburger
    with 1 False have "odd (odd_part (n div 2))" by simp
    with False "1.prems" show ?thesis by (subst odd_part.simps) simp
  qed
qed

lemma odd_dvd_shift:
  fixes m :: int
  assumes "odd m" "m dvd i * 2 ^ k"
  shows "m dvd i"
proof -
  from assms(1) have "coprime m 2" by simp
  then have "coprime m (2 ^ k)" by simp
  with assms(2) show ?thesis by (simp add: coprime_dvd_mult_left_iff)
qed

lemma test_split_cases:
  assumes "P \<in> test_split_values"
  shows "P \<in> set [10..50]"
  using assms by (simp only: test_split_values_def slider_def set_upto)

lemma period_table:
  "\<forall>P \<in> set [10..50]. \<exists>y. int_true_divide 100 P = Inr y \<and> 0 < mantissa y \<and> exponent y \<le> 0 \<and>
      1 < float_value y \<and> (P \<notin> dyadic_splits \<longrightarrow> 2 ^ 49 < odd_part (mantissa y))"
  by (simp add: int_true_divide_def round_checked_def round_to_double_def
        binade_def bit_length.simps round_half_even_def overflows_def Let_def float_value_def
        odd_part.simps dyadic_splits_def)

text \<open>
  What the test of line 240 decides for a slider value: index 0 passes, index 1 does
  not, and where the period is not dyadic no index up to \<open>2 ^ 49\<close> but 0 passes.
\<close>

lemma period_of_split:
  assumes "P \<in> test_split_values"
  obtains y where "int_true_divide 100 P = Inr y" "0 < mantissa y" "exponent y \<le> 0"
    "1 < float_value y" "P \<in> dyadic_splits \<or> 2 ^ 49 < odd_part (mantissa y)"
  using period_table test_split_cases [OF assms] by blast

lemma split_test_reachable:
  assumes "P \<in> test_split_values" "i < 2 ^ 53"
  shows "\<exists>y. int_true_divide 100 P = Inr y \<and> 0 < float_value y \<and>
           split_test i P = Inr (\<exists>k::int. of_nat i = of_int k * float_value y)"
proof -
  from assms(1) obtain y where y: "int_true_divide 100 P = Inr y" "0 < mantissa y"
    "1 < float_value y"
    by (rule period_of_split)
  from y(1,2) assms(2) have "split_test i P = Inr (\<exists>k::int. of_nat i = of_int k * float_value y)"
    by (rule split_test_multiple)
  with y show ?thesis by auto
qed

lemma split_test_first:
  assumes "P \<in> test_split_values"
  shows "split_test 0 P = Inr True"
proof -
  from assms obtain y where y: "int_true_divide 100 P = Inr y" "0 < mantissa y"
    by (rule period_of_split)
  have "split_test 0 P = Inr (\<exists>k::int. of_nat 0 = of_int k * float_value y)"
    using y by (rule split_test_multiple) simp
  moreover have "\<exists>k::int. of_nat 0 = of_int k * float_value y"
    by (rule exI [of _ 0]) simp
  ultimately show ?thesis by simp
qed

lemma no_multiple_below:
  fixes v :: rat
  assumes "of_nat i = of_int k * v" "0 < i" "of_nat i < v"
  shows False
proof -
  from assms(2,3) have v: "0 < v" by (metis of_nat_0_le_iff le_less_trans)
  from assms(1,2) v have "0 < of_int k * v" by (metis of_nat_0_less_iff)
  with v have "0 < k" by (simp add: zero_less_mult_iff)
  then have "1 \<le> (of_int k :: rat)" by simp
  with v have "v \<le> of_int k * v" by (metis mult_le_cancel_right1 less_le_not_le mult.commute mult_le_cancel_left1)
  with assms(1,3) show False by simp
qed

lemma split_test_second:
  assumes "P \<in> test_split_values"
  shows "split_test 1 P = Inr False"
proof -
  from assms obtain y where y: "int_true_divide 100 P = Inr y" "0 < mantissa y"
    "1 < float_value y"
    by (rule period_of_split)
  have "split_test 1 P = Inr (\<exists>k::int. of_nat 1 = of_int k * float_value y)"
    using y(1,2) by (rule split_test_multiple) simp
  moreover have "\<not> (\<exists>k::int. of_nat 1 = of_int k * float_value y)"
    using no_multiple_below [of 1 _ "float_value y"] y(3) by auto
  ultimately show ?thesis by simp
qed

lemma split_test_nondyadic:
  assumes "P \<in> test_split_values" "P \<notin> dyadic_splits" "0 < i" "i \<le> 2 ^ 49"
  shows "split_test i P = Inr False"
proof -
  from assms(1) obtain y where y: "int_true_divide 100 P = Inr y" "0 < mantissa y"
    "exponent y \<le> 0" "P \<in> dyadic_splits \<or> 2 ^ 49 < odd_part (mantissa y)"
    by (rule period_of_split)
  define M where "M = mantissa y"
  define K where "K = nat (- exponent y)"
  have big: "2 ^ 49 < odd_part M" using y(4) assms(2) by (simp add: M_def)
  have "(2::nat) ^ 49 < 2 ^ 53" by simp
  with assms(4) have "i < 2 ^ 53" by (rule le_less_trans)
  with y(1,2) have st: "split_test i P = Inr (\<exists>k::int. of_nat i = of_int k * float_value y)"
    by (rule split_test_multiple)
  have val: "float_value y = of_int M / of_int (2 ^ K)"
    using y(3) by (cases "exponent y = 0") (simp_all add: float_value_def M_def K_def)
  have "\<not> (\<exists>k::int. of_nat i = of_int k * float_value y)"
  proof
    assume "\<exists>k::int. of_nat i = of_int k * float_value y"
    then obtain k :: int where "(of_nat i :: rat) = of_int k * (of_int M / of_int (2 ^ K))"
      unfolding val by blast
    then have "(of_int (int i * 2 ^ K) :: rat) = of_int (k * M)"
      by (simp add: field_simps)
    then have "int i * 2 ^ K = k * M" by (simp only: of_int_eq_iff)
    then have "M dvd int i * 2 ^ K" by simp
    with odd_part_dvd [of M] have "odd_part M dvd int i * 2 ^ K" by (rule dvd_trans)
    moreover have "odd (odd_part M)" using y(2) by (simp add: M_def odd_part_odd)
    ultimately have "odd_part M dvd int i" by (rule odd_dvd_shift [rotated])
    with assms(3) have "odd_part M \<le> int i" by (simp add: zdvd_imp_le)
    moreover from assms(4) have "int i \<le> 2 ^ 49"
      by (metis of_nat_le_iff of_nat_numeral of_nat_power)
    ultimately show False using big by simp
  qed
  with st show ?thesis by simp
qed

lemma round_checked_error: "round_checked n d = Inl e \<Longrightarrow> e = OverflowError"
  by (auto simp: round_checked_def Let_def split: if_splits)

lemma split_test_no_zero_division:
  assumes "P \<in> test_split_values"
  shows "split_test i P \<noteq> Inl ZeroDivisionError"
proof -
  from assms obtain y where y: "int_true_divide 100 P = Inr y" "0 < mantissa y"
    by (rule period_of_split)
  show ?thesis
  proof (cases "float_of_int (int i)")
    case (Inl e)
    then have "e = OverflowError" unfolding float_of_int_def by (rule round_checked_error)
    with Inl y show ?thesis by (simp add: split_test_def)
  next
    case (Inr x)
    show ?thesis
    proof (cases "float_rem x y")
      case (Inl e)
      with y(2) have "e = OverflowError"
        by (auto simp: float_rem_def float_add_def Let_def split: if_splits dest: round_checked_error)
      with Inl Inr y show ?thesis by (simp add: split_test_def)
    next
      case r: (Inr r)
      with Inr y show ?thesis by (simp add: split_test_def)
    qed
  qed
qed

section \<open>Facts about the extractor and the example inputs\<close>

lemma dropWhile_all_iff: "dropWhile P xs = [] \<longleftrightarrow> (\<forall>x \<in> set xs. P x)"
  by (induction xs) auto

lemma strip_nonempty_iff: "strip t \<noteq> [] \<longleftrightarrow> (\<exists>c \<in> set t. \<not> isspace c)"
proof -
  have "strip t = [] \<longleftrightarrow> dropWhile isspace (rev (dropWhile isspace t)) = []"
    by (simp add: strip_def)
  also have "\<dots> \<longleftrightarrow> (\<forall>c \<in> set (dropWhile isspace t). isspace c)"
    by (simp only: dropWhile_all_iff set_rev)
  also have "\<dots> \<longleftrightarrow> dropWhile isspace t = []"
  proof
    assume a: "\<forall>c \<in> set (dropWhile isspace t). isspace c"
    show "dropWhile isspace t = []"
    proof (rule ccontr)
      assume n: "dropWhile isspace t \<noteq> []"
      then have "\<not> isspace (hd (dropWhile isspace t))" by (rule hd_dropWhile)
      moreover from n have "hd (dropWhile isspace t) \<in> set (dropWhile isspace t)" by simp
      ultimately show False using a by blast
    qed
  next
    assume e: "dropWhile isspace t = []"
    show "\<forall>c \<in> set (dropWhile isspace t). isspace c" unfolding e by simp
  qed
  also have "\<dots> \<longleftrightarrow> (\<forall>c \<in> set t. isspace c)"
    by (rule dropWhile_all_iff)
  finally show ?thesis by blast
qed

lemma join_cons: "join sep (t # ts) = t @ concat (map (\<lambda>u. sep @ u) ts)"
  by (induction ts arbitrary: t) simp_all

lemma join_newline: "join [10] ts = newline_joined ts"
  by (cases ts) (simp_all add: join_cons)

lemma extract_text_valid:
  assumes "drop (pos f) (data f) \<noteq> []" "parse_docx (drop (pos f) (data f)) = Some ps"
  shows "fst (extract_text_from_docx parse_docx f) = Inr (newline_joined [t \<leftarrow> ps. strip t \<noteq> []])"
  using assms by (simp add: extract_text_from_docx_def read_def Document_def join_newline)

lemma numbered_text:
  "fst (extract_text_from_docx toy_parser (numbered_upload k)) = Inr [100, 48 + k]"
proof -
  have "strip [100, 48 + k] \<noteq> []"
    unfolding strip_nonempty_iff by (rule bexI [of _ 100]) (simp_all add: isspace_def)
  then show ?thesis
    by (simp add: extract_text_from_docx_def read_def Document_def numbered_upload_def
        docx_upload_def toy_parser_def)
qed

lemma numbered_accepted: "accepted (numbered_upload k)" "type (numbered_upload k) = docx_mime"
  by (simp_all add: accepted_def numbered_upload_def docx_upload_def)

lemma pdf_rejected: "\<not> accepted pdf_upload" "type pdf_upload \<noteq> docx_mime"
  by (simp_all add: accepted_def pdf_upload_def docx_mime_def str_def)

section \<open>Runs of \<^verbatim>\<open>create_jsonl_data\<close> that return\<close>

lemma snd_filter_enumerate: "map snd [(i, f) \<leftarrow> enumerate n xs. Q f] = filter Q xs"
  by (induction xs arbitrary: n) simp_all

lemma rejected_warnings:
  "map (unsupported_warning \<circ> snd) [(i, f) \<leftarrow> enumerate n xs. \<not> accepted f] =
     map unsupported_warning [f \<leftarrow> xs. \<not> accepted f]"
  by (induction xs arbitrary: n) simp_all

lemma data_success:
  assumes "create_jsonl_data parse_docx P files = (shown, Inr (train_data, test_data))"
  shows "map Some train_data = map (document_of parse_docx \<circ> snd) (train_items P (enumerate 0 files))"
    and "map Some test_data = map (document_of parse_docx \<circ> snd) (test_items P (enumerate 0 files))"
    and "shown = map unsupported_warning [f \<leftarrow> files. \<not> accepted f]"
  using loop_success [OF assms [unfolded create_jsonl_data_def]]
  by (simp_all add: rejected_warnings)

lemma data_success_defined:
  assumes "create_jsonl_data parse_docx P files = (shown, Inr (train_data, test_data))"
    and "(i, f) \<in> set (enumerate 0 files)" "accepted f"
  shows "document_of parse_docx f \<noteq> None" "\<exists>b. split_test i P = Inr b"
  using loop_success_defined [OF assms(1) [unfolded create_jsonl_data_def] assms(2,3)]
  by simp_all

lemma items_disjoint: "set (train_items P ps) \<inter> set (test_items P ps) = {}"
  by (auto simp: train_items_def test_items_def)

lemma items_cover:
  assumes "\<And>i f. (i, f) \<in> set ps \<Longrightarrow> accepted f \<Longrightarrow> \<exists>b. split_test i P = Inr b"
  shows "set (train_items P ps) \<union> set (test_items P ps) = {(i, f) \<in> set ps. accepted f}"
    and "mset (train_items P ps) + mset (test_items P ps) = mset [(i, f) \<leftarrow> ps. accepted f]"
proof -
  show "set (train_items P ps) \<union> set (test_items P ps) = {(i, f) \<in> set ps. accepted f}"
    using assms by (fastforce simp: train_items_def test_items_def)
  show "mset (train_items P ps) + mset (test_items P ps) = mset [(i, f) \<leftarrow> ps. accepted f]"
    using assms
  proof (induction ps)
    case Nil
    then show ?case by (simp add: train_items_def test_items_def)
  next
    case (Cons p ps)
    obtain j g where p: "p = (j, g)" by (cases p)
    have IH: "mset (train_items P ps) + mset (test_items P ps) = mset [(i, f) \<leftarrow> ps. accepted f]"
      by (rule Cons.IH) (rule Cons.prems, simp_all)
    show ?case
    proof (cases "accepted g")
      case False
      with IH p show ?thesis by (simp add: train_items_def test_items_def)
    next
      case True
      with Cons.prems [of j g] p obtain b where "split_test j P = Inr b" by auto
      with IH p True show ?thesis by (cases b) (simp_all add: train_items_def test_items_def)
    qed
  qed
qed

lemma items_distinct:
  "distinct (train_items P (enumerate n xs) @ test_items P (enumerate n xs))"
  using items_disjoint [of P "enumerate n xs"]
  by (simp add: train_items_def test_items_def)

section \<open>The text extractor (C4)\<close>

text \<open>
  C4. For a container whose unread bytes are a valid document, the extractor returns the
  texts of the paragraphs whose trimmed text is non-empty, in document order and
  untrimmed, joined by single newlines. A paragraph is kept exactly when it has a
  character that is not whitespace.
\<close>

theorem extract_text_nonblank_paragraphs:
  assumes "drop (pos f) (data f) \<noteq> []"
    and "parse_docx (drop (pos f) (data f)) = Some paragraphs"
  shows "fst (extract_text_from_docx parse_docx f) =
           Inr (newline_joined [t \<leftarrow> paragraphs. strip t \<noteq> []]) \<and>
         [t \<leftarrow> paragraphs. strip t \<noteq> []] = [t \<leftarrow> paragraphs. \<exists>c \<in> set t. \<not> isspace c]"
  using extract_text_valid [where parse_docx = parse_docx, OF assms] by (simp add: strip_nonempty_iff)

theorem extract_text_nonblank_paragraphs_witness:
  "fst (extract_text_from_docx toy_parser
          (docx_upload [80, 75, 72, 105, 0, 32, 32, 0, 0, 32, 97, 32, 98, 9])) =
     Inr [72, 105, 10, 32, 97, 32, 98, 9]"
proof -
  let ?f = "docx_upload [80, 75, 72, 105, 0, 32, 32, 0, 0, 32, 97, 32, 98, 9]"
  have h1: "drop (pos ?f) (data ?f) \<noteq> []"
    by (simp add: docx_upload_def)
  have h2: "toy_parser (drop (pos ?f) (data ?f)) = Some [[72, 105], [32, 32], [], [32, 97, 32, 98, 9]]"
    by (simp add: docx_upload_def toy_parser_def)
  from extract_text_nonblank_paragraphs [where parse_docx = toy_parser, OF h1 h2] show ?thesis
    by (simp add: isspace_def)
qed

section \<open>The division is guarded (C6)\<close>

text \<open>
  C6. The split percentage comes from a slider between 10 and 50, so it is never 0: for
  every value the slider can give, \<^verbatim>\<open>100/test_split\<close> is a positive double, the test
  of line 240 never raises \<^verbatim>\<open>ZeroDivisionError\<close>, and for every index below
  \<open>2 ^ 53\<close> it returns a truth value.
\<close>

theorem split_test_total_on_slider:
  assumes "P \<in> test_split_values"
  shows "P \<noteq> 0 \<and>
         (\<exists>period. int_true_divide 100 P = Inr period \<and> 0 < float_value period) \<and>
         split_test i P \<noteq> Inl ZeroDivisionError \<and>
         (i < 2 ^ 53 \<longrightarrow> (\<exists>b. split_test i P = Inr b))"
proof -
  from assms have "P \<noteq> 0" by (auto simp: test_split_values_def slider_def)
  moreover from split_test_reachable [OF assms, of 0]
  have "\<exists>period. int_true_divide 100 P = Inr period \<and> 0 < float_value period" by auto
  moreover note split_test_no_zero_division [OF assms, of i]
  moreover have "i < 2 ^ 53 \<longrightarrow> (\<exists>b. split_test i P = Inr b)"
    using split_test_reachable [OF assms, of i] by auto
  ultimately show ?thesis by blast
qed

theorem split_test_total_on_slider_witness:
  "(10 :: int) \<in> test_split_values \<and> split_test 7 10 = Inr False \<and>
   int_true_divide 100 10 = Inr (Double 5629499534213120 (- 49)) \<and>
   int_true_divide 100 0 = Inl ZeroDivisionError"
proof -
  have h: "(10 :: int) \<in> test_split_values"
    by (simp add: test_split_values_def slider_def)
  have "split_test 7 10 = Inr False" "int_true_divide 100 0 = Inl ZeroDivisionError"
    "int_true_divide 100 10 = Inr (Double 5629499534213120 (- 49))"
    by (simp_all add: float_defs)
  with h split_test_total_on_slider [OF h, of 7] show ?thesis by simp
qed

end
